theory Spec2Isabelle
  imports Main
begin

unbundle bit_operations_syntax

section \<open>The program \<^verbatim>\<open>src/font_compress.py\<close>\<close>

text \<open>
  Python integers are unbounded, so pixel samples, bytes and run counts are \<open>int\<close>.
  Lists, bytearrays and the result lists that the code appends to are \<open>int list\<close>.
  Loop indices and lengths, which never go negative, are \<open>nat\<close>.
  Every \<^verbatim>\<open>while\<close> loop is a recursive function on the loop variables, with a
  termination proof; every exception the code can raise is a value of \<open>error\<close>.
\<close>

datatype error =
    AssertionError
  | ZeroDivisionError
  | IndexError
  | ValueError
  | LoadError
  | SystemExit int

subsection \<open>\<^verbatim>\<open>rle_compress\<close> (lines 63-82)\<close>

text \<open>
  The inner loop
  \<^verbatim>\<open>while i < n and data[i] == 0x00 and count < 255: i += 1; count += 1\<close>
  on the variables \<open>i\<close> and \<open>count\<close>; it returns their final values.
\<close>

function zero_run :: "int list \<Rightarrow> nat \<Rightarrow> int \<Rightarrow> nat \<times> int" where
  "zero_run data i count =
     (if i < length data \<and> data ! i = 0 \<and> count < 255
      then zero_run data (i + 1) (count + 1)
      else (i, count))"
  by pat_completeness auto
termination
  by (relation "measure (\<lambda>(data, i, count). length data - i)") auto

declare zero_run.simps [simp del]

lemma zero_run_index_ge: "i \<le> fst (zero_run data i count)"
proof (induction data i count rule: zero_run.induct)
  case (1 data i count)
  show ?case
  proof (cases "i < length data \<and> data ! i = 0 \<and> count < 255")
    case True
    then have "i + 1 \<le> fst (zero_run data (i + 1) (count + 1))" by (rule "1.IH")
    then have "i \<le> fst (zero_run data (i + 1) (count + 1))" by arith
    with True show ?thesis by (simp add: zero_run.simps [of data i count])
  next
    case False
    then show ?thesis by (auto simp add: zero_run.simps [of data i count])
  qed
qed

text \<open>
  The outer loop \<^verbatim>\<open>while i < n\<close> on the variables \<open>i\<close> and \<open>result\<close>.
  Both accesses \<^verbatim>\<open>data[i]\<close> are guarded by \<^verbatim>\<open>i < n\<close>.
\<close>

function rle_loop :: "int list \<Rightarrow> nat \<Rightarrow> int list \<Rightarrow> int list" where
  "rle_loop data i result =
     (if i < length data then
        (if data ! i = 0 then
           (case zero_run data (i + 1) 1 of
              (i', count) \<Rightarrow> rle_loop data i' (result @ [data ! i] @ [count]))
         else rle_loop data (i + 1) (result @ [data ! i]))
      else result)"
  by pat_completeness auto
termination
proof (relation "measure (\<lambda>(data, i, result). length data - i)", goal_cases)
  case 1
  show ?case by simp
next
  case (2 data i result x y)
  from zero_run_index_ge [of "i + 1" data 1] 2 have "i + 1 \<le> x"
    by (metis fst_conv)
  with 2 show ?case by simp
next
  case (3 data i result)
  then show ?case by simp
qed

declare rle_loop.simps [simp del]

definition rle_compress :: "int list \<Rightarrow> int list" where
  "rle_compress data = rle_loop data 0 []"

subsection \<open>\<^verbatim>\<open>decompress_and_verify\<close> (lines 149-171)\<close>

text \<open>
  The byte-level decoding loop (lines 150-163) on the variables \<open>i\<close> and \<open>result\<close>.
  \<^verbatim>\<open>[0x00] * count\<close> is the empty list when \<open>count \<le> 0\<close>, hence \<open>nat\<close>.
\<close>

function rle_decode_loop :: "int list \<Rightarrow> nat \<Rightarrow> int list \<Rightarrow> int list" where
  "rle_decode_loop compressed i result =
     (if i < length compressed then
        (if compressed ! i = 0 then
           (if i + 1 < length compressed then
              rle_decode_loop compressed (i + 2)
                (result @ replicate (nat (compressed ! (i + 1))) 0)
            else rle_decode_loop compressed (i + 1) (result @ [0]))
         else rle_decode_loop compressed (i + 1) (result @ [compressed ! i]))
      else result)"
  by pat_completeness auto
termination
  by (relation "measure (\<lambda>(compressed, i, result). length compressed - i)") auto

declare rle_decode_loop.simps [simp del]

definition rle_decode :: "int list \<Rightarrow> int list" where
  "rle_decode compressed = rle_decode_loop compressed 0 []"

text \<open>
  The unpacking loop (lines 166-169): for each byte, bits 7 down to 0, where
  \<^verbatim>\<open>byte & (1 << (7 - bit))\<close> is tested for truth (non-zero).
\<close>

definition unpack_byte :: "int \<Rightarrow> int list" where
  "unpack_byte byte =
     map (\<lambda>b. if byte AND push_bit (7 - b) 1 \<noteq> 0 then 255 else 0) [0..<8]"

definition unpack_bits :: "int list \<Rightarrow> int list" where
  "unpack_bits result = concat (map unpack_byte result)"

text \<open>
  \<open>original_size\<close> is a length (the caller passes \<^verbatim>\<open>len(pixels)\<close>), so the slice
  \<^verbatim>\<open>unpacked[:original_size]\<close> is \<open>take\<close>.
\<close>

definition decompress_and_verify :: "int list \<Rightarrow> nat \<Rightarrow> int list" where
  "decompress_and_verify compressed original_size =
     take original_size (unpack_bits (rle_decode compressed))"

subsection \<open>Images\<close>

text \<open>
  What the code sees of a PIL image in mode \<^verbatim>\<open>L\<close>: its size \<^verbatim>\<open>(w, h)\<close> and the
  pixel access object \<^verbatim>\<open>pixels[x, y]\<close> returned by \<^verbatim>\<open>img.load()\<close>.
\<close>

record image =
  img_w :: nat
  img_h :: nat
  img_px :: "nat \<Rightarrow> nat \<Rightarrow> int"

subsection \<open>\<^verbatim>\<open>detect_grid\<close> (lines 11-36)\<close>

definition v_seps :: "image \<Rightarrow> int \<Rightarrow> nat list" where
  "v_seps img threshold =
     filter (\<lambda>x. list_all (\<lambda>y. img_px img x y < threshold) [0..<img_h img]) [0..<img_w img]"

definition h_seps :: "image \<Rightarrow> int \<Rightarrow> nat list" where
  "h_seps img threshold =
     filter (\<lambda>y. list_all (\<lambda>x. img_px img x y < threshold) [0..<img_w img]) [0..<img_h img]"

text \<open>The result is \<open>(cols, rows, char_width, char_height)\<close>, or \<open>None\<close>.\<close>

definition detect_grid :: "image \<Rightarrow> int \<Rightarrow> (int \<times> int \<times> int \<times> int) option" where
  "detect_grid img threshold =
     (let vs = v_seps img threshold; hs = h_seps img threshold in
      if vs \<noteq> [] \<and> hs \<noteq> [] then
        (let char_width = (if length vs > 1 then int (vs ! 1) - int (vs ! 0) else int (img_w img));
             char_height = (if length hs > 1 then int (hs ! 1) - int (hs ! 0) else int (img_h img));
             cols = (if length vs > 1 then int (length vs) - 1 else 1);
             rows = (if length hs > 1 then int (length hs) - 1 else 1)
         in Some (cols, rows, char_width, char_height))
      else None)"

subsection \<open>\<^verbatim>\<open>binarize_image\<close> (lines 38-46)\<close>

definition binarize_image :: "image \<Rightarrow> int \<Rightarrow> int list" where
  "binarize_image img threshold =
     concat (map (\<lambda>y. map (\<lambda>x. if img_px img x y < threshold then 0 else 255)
                           [0..<img_w img])
                 [0..<img_h img])"

subsection \<open>\<^verbatim>\<open>compress_to_bits\<close> (lines 48-61)\<close>

text \<open>
  The inner loop over \<open>j\<close> builds one byte from the eight pixels starting at \<open>i\<close>.
  The assertion guarantees \<open>i + j < len(pixels)\<close> for every access, and the byte built
  from eight bits is in \<open>[0, 255]\<close> (lemma \<open>pack_byte_range\<close>), so the bytearray
  assignment is always accepted.
\<close>

definition pack_byte :: "int list \<Rightarrow> nat \<Rightarrow> int" where
  "pack_byte pixels i =
     fold (\<lambda>j byte. push_bit 1 byte OR (if pixels ! (i + j) = 255 then 1 else 0)) [0..<8] 0"

text \<open>\<^verbatim>\<open>range(0, n, 8)\<close>: the multiples of 8 below \<open>n\<close>.\<close>

definition range8 :: "nat \<Rightarrow> nat list" where
  "range8 n = map (\<lambda>k. 8 * k) [0..<(n + 7) div 8]"

definition compress_to_bits :: "int list \<Rightarrow> error + int list" where
  "compress_to_bits pixels =
     (if length pixels mod 8 \<noteq> 0 then Inl AssertionError
      else Inr (fold (\<lambda>i compressed. compressed[i div 8 := pack_byte pixels i])
                     (range8 (length pixels))
                     (replicate (length pixels div 8) 0)))"

subsection \<open>\<^verbatim>\<open>generate_solid_char\<close> (lines 84-95)\<close>

text \<open>\<^verbatim>\<open>range(n)\<close> for an integer \<open>n\<close>: empty when \<open>n \<le> 0\<close>.\<close>

definition py_range :: "int \<Rightarrow> int list" where
  "py_range n = map int [0..<nat n]"

text \<open>
  \<^verbatim>\<open>pixels[idx] = 0xFF\<close> on a Python list: an index in \<open>[-len, len)\<close> is accepted
  (a negative one counts from the end), any other raises IndexError.
\<close>

definition set_pixel :: "int list \<Rightarrow> int \<Rightarrow> error + int list" where
  "set_pixel pixels idx =
     (let n = int (length pixels) in
      if 0 \<le> idx \<and> idx < n then Inr (pixels[nat idx := 255])
      else if - n \<le> idx \<and> idx < 0 then Inr (pixels[nat (n + idx) := 255])
      else Inl IndexError)"

text \<open>One iteration of the inner loop body; an exception raised earlier is kept.\<close>

definition solid_step :: "int \<Rightarrow> int \<Rightarrow> int \<Rightarrow> int \<Rightarrow> int \<Rightarrow> int \<Rightarrow> error + int list \<Rightarrow> error + int list" where
  "solid_step w h x0 y0 dy dx st =
     (case st of
        Inl e \<Rightarrow> Inl e
      | Inr pixels \<Rightarrow>
          (let x = x0 + dx; y = y0 + dy in
           if 0 \<le> x \<and> x < w \<and> 0 \<le> y \<and> y < h then set_pixel pixels (y * w + x)
           else Inr pixels))"

text \<open>
  The list is mutated in place; the model returns the new list. \<^verbatim>\<open>index % cols\<close>
  raises ZeroDivisionError when \<open>cols = 0\<close>; Python's \<^verbatim>\<open>%\<close> and \<^verbatim>\<open>//\<close> round
  towards minus infinity, as \<open>mod\<close> and \<open>div\<close> on \<open>int\<close> do.
\<close>

definition generate_solid_char ::
  "int list \<Rightarrow> int \<Rightarrow> int \<Rightarrow> int \<Rightarrow> int \<Rightarrow> int \<Rightarrow> int \<Rightarrow> error + int list" where
  "generate_solid_char pixels w h cols rows char_w char_h =
     (if cols = 0 then Inl ZeroDivisionError
      else
        (let index = 95;
             x0 = (index mod cols) * char_w;
             y0 = (index div cols) * char_h
         in fold (\<lambda>dy st. fold (\<lambda>dx st. solid_step w h x0 y0 dy dx st) (py_range char_w) st)
                 (py_range char_h) (Inr pixels)))"

subsection \<open>\<^verbatim>\<open>process_image\<close> (lines 213-297)\<close>

text \<open>
  The parsed command line. \<open>grid\<close> and \<open>char_size\<close> hold the two integers of
  \<^verbatim>\<open>--grid CxR\<close> and \<^verbatim>\<open>--char-size WxH\<close> once parsed; \<open>None\<close> when the option is
  absent. \<open>batch\<close> is empty when \<^verbatim>\<open>--batch\<close> is absent. A value of \<^verbatim>\<open>--grid\<close>
  or \<^verbatim>\<open>--char-size\<close> that is not two integers around an \<^verbatim>\<open>x\<close>, on which lines
  219-226 raise ValueError, is outside the model.
\<close>

record args =
  image_path :: string
  grid :: "(int \<times> int) option"
  char_size :: "(int \<times> int) option"
  solid :: bool
  raw :: bool
  threshold :: int
  stats :: bool
  verify :: bool
  list_fonts :: bool
  batch :: "string list"

text \<open>
  The command line of lines 178-192 with only the image path given: every flag is
  off, and the threshold has its default 128.
\<close>

definition default_args :: "string \<Rightarrow> args" where
  "default_args path =
     \<lparr>image_path = path, grid = None, char_size = None, solid = False, raw = False,
      threshold = 128, stats = False, verify = False, list_fonts = False, batch = []\<rparr>"

text \<open>Lines 217-239: the grid layout \<open>(cols, rows, char_w, char_h)\<close>.\<close>

definition grid_layout :: "args \<Rightarrow> image \<Rightarrow> error + (int \<times> int \<times> int \<times> int)" where
  "grid_layout a img =
     (let w = int (img_w img); h = int (img_h img) in
      case (grid a, char_size a) of
        (Some (cols, rows), Some (char_w, char_h)) \<Rightarrow> Inr (cols, rows, char_w, char_h)
      | (Some (cols, rows), None) \<Rightarrow>
          if cols = 0 \<or> rows = 0 then Inl ZeroDivisionError
          else Inr (cols, rows, w div cols, h div rows)
      | (None, Some (char_w, char_h)) \<Rightarrow>
          if char_w = 0 \<or> char_h = 0 then Inl ZeroDivisionError
          else Inr (w div char_w, h div char_h, char_w, char_h)
      | (None, None) \<Rightarrow>
          (case detect_grid img (threshold a) of
             Some detected \<Rightarrow> Inr detected
           | None \<Rightarrow>
               (let cols = 16; rows = (95 + cols - 1) div cols
                in Inr (cols, rows, w div cols, h div rows))))"

text \<open>
  Lines 241-243: \<^verbatim>\<open>w % char_w != 0 or h % char_h != 0\<close>; the result says whether the
  warning is printed. \<^verbatim>\<open>or\<close> evaluates its right operand only when the left is false.
\<close>

definition size_warning :: "int \<Rightarrow> int \<Rightarrow> int \<Rightarrow> int \<Rightarrow> error + bool" where
  "size_warning w h char_w char_h =
     (if char_w = 0 then Inl ZeroDivisionError
      else if w mod char_w \<noteq> 0 then Inr True
      else if char_h = 0 then Inl ZeroDivisionError
      else Inr (h mod char_h \<noteq> 0))"

text \<open>
  \<open>files\<close> stands for \<^verbatim>\<open>load_image\<close> and the file system: the grayscale image a
  path opens to, or \<open>None\<close> when opening it raises. The result is the byte sequence
  handed to the formatter, or the exception that leaves \<^verbatim>\<open>process_image\<close>.
  \<^verbatim>\<open>print_stats\<close> divides by the compressed size; \<^verbatim>\<open>chr\<close> rejects a negative
  argument; \<^verbatim>\<open>sys.exit(1)\<close> raises \<open>SystemExit 1\<close>. Writing the preview and the
  output are not modelled.
\<close>

definition process_image :: "(string \<Rightarrow> image option) \<Rightarrow> string \<Rightarrow> args \<Rightarrow> error + int list" where
  "process_image files path a =
     (case files path of
        None \<Rightarrow> Inl LoadError
      | Some img \<Rightarrow>
     (let w = int (img_w img); h = int (img_h img) in
      case grid_layout a img of
        Inl e \<Rightarrow> Inl e
      | Inr (cols, rows, char_w, char_h) \<Rightarrow>
     (case size_warning w h char_w char_h of
        Inl e \<Rightarrow> Inl e
      | Inr warned \<Rightarrow>
     (case (if solid a
            then generate_solid_char (binarize_image img (threshold a)) w h cols rows char_w char_h
            else Inr (binarize_image img (threshold a))) of
        Inl e \<Rightarrow> Inl e
      | Inr pixels \<Rightarrow>
     (case (if raw a then Inr pixels
            else (case compress_to_bits pixels of
                    Inl e \<Rightarrow> Inl e
                  | Inr bit_packed \<Rightarrow> Inr (rle_compress bit_packed))) of
        Inl e \<Rightarrow> Inl e
      | Inr compressed \<Rightarrow>
          if stats a \<and> length compressed = 0 then Inl ZeroDivisionError
          else if list_fonts a \<and> min (32 + cols * rows - 1) 126 < 0 then Inl ValueError
          else if verify a \<and> \<not> raw a
                  \<and> decompress_and_verify compressed (length pixels) \<noteq> pixels
          then Inl (SystemExit 1)
          else Inr compressed)))))"

subsection \<open>\<^verbatim>\<open>main\<close> (lines 173-211)\<close>

text \<open>
  The batch loop (lines 198-203). No exception is caught anywhere in the program, so
  one raised by \<^verbatim>\<open>process_image\<close> leaves the loop and \<^verbatim>\<open>main\<close>. The state is the
  list of images processed so far, each with its output.
\<close>

fun batch_loop ::
  "(string \<Rightarrow> image option) \<Rightarrow> args \<Rightarrow> string list \<Rightarrow> (string \<times> int list) list
     \<Rightarrow> (string \<times> int list) list \<times> error option" where
  "batch_loop files a [] outputs = (outputs, None)"
| "batch_loop files a (img_path # rest) outputs =
     (case process_image files img_path a of
        Inl e \<Rightarrow> (outputs, Some e)
      | Inr compressed \<Rightarrow> batch_loop files a rest (outputs @ [(img_path, compressed)]))"

definition main :: "(string \<Rightarrow> image option) \<Rightarrow> args \<Rightarrow> (string \<times> int list) list \<times> error option" where
  "main files a =
     (if batch a \<noteq> [] then batch_loop files a (batch a) []
      else if image_path a = [] then ([], None)
      else (case process_image files (image_path a) a of
              Inl e \<Rightarrow> ([], Some e)
            | Inr compressed \<Rightarrow> ([(image_path a, compressed)], None)))"

text \<open>
  The status the interpreter exits with: 0 on a normal return, the argument of
  \<^verbatim>\<open>sys.exit\<close>, and 1 for any other uncaught exception.
\<close>

fun exit_status :: "error option \<Rightarrow> int" where
  "exit_status None = 0"
| "exit_status (Some (SystemExit n)) = n"
| "exit_status (Some e) = 1"

section \<open>A list view of the two RLE loops\<close>

text \<open>
  The loops of \<^verbatim>\<open>rle_compress\<close> and of the decoder walk an index over a list; the
  functions below recurse on the part of the list the index has not reached. They are
  used in proofs only: the lemmas \<open>rle_compress_eq_list\<close> and \<open>rle_decode_eq_list\<close>
  show that the loops compute them.
\<close>

fun zero_run_list :: "int list \<Rightarrow> int \<Rightarrow> int list \<times> int" where
  "zero_run_list [] count = ([], count)"
| "zero_run_list (x # xs) count =
     (if x = 0 \<and> count < 255 then zero_run_list xs (count + 1) else (x # xs, count))"

lemma zero_run_list_length: "length (fst (zero_run_list xs count)) \<le> length xs"
  by (induction xs arbitrary: count) (auto intro: le_SucI)

function rle_encode_list :: "int list \<Rightarrow> int list" where
  "rle_encode_list [] = []"
| "rle_encode_list (x # xs) =
     (if x = 0 then
        (case zero_run_list xs 1 of (rest, count) \<Rightarrow> 0 # count # rle_encode_list rest)
      else x # rle_encode_list xs)"
  by pat_completeness auto
termination
proof (relation "measure length", goal_cases)
  case 1
  show ?case by simp
next
  case (2 x xs rest count)
  from zero_run_list_length [of xs 1] 2 have "length rest \<le> length xs"
    by (metis fst_conv)
  then show ?case by simp
next
  case (3 x xs)
  then show ?case by simp
qed

fun rle_decode_list :: "int list \<Rightarrow> int list" where
  "rle_decode_list [] = []"
| "rle_decode_list [x] = [x]"
| "rle_decode_list (x # count # rest) =
     (if x = 0 then replicate (nat count) 0 @ rle_decode_list rest
      else x # rle_decode_list (count # rest))"

text \<open>
  The stream format of section 4.5 of the specification, as a predicate on an encoded
  stream read from its start: a 0 in an encoding position is followed by a count byte
  in \<open>[1, 255]\<close>, after which the next encoding position begins; any other byte stands
  alone. A 0 that ends the stream has no count byte, so the stream is not well formed.
\<close>

fun well_formed_stream :: "int list \<Rightarrow> bool" where
  "well_formed_stream [] = True"
| "well_formed_stream [x] = (x \<noteq> 0)"
| "well_formed_stream (x # count # rest) =
     (if x = 0 then 1 \<le> count \<and> count \<le> 255 \<and> well_formed_stream rest
      else well_formed_stream (count # rest))"

section \<open>Example inputs\<close>

text \<open>
  Three 32 by 12 images: one whose only dark column is \<open>x = 0\<close> and whose only dark
  row is \<open>y = 0\<close>, one with no dark pixel, and one whose only dark column is
  \<open>x = 0\<close> and whose dark rows are \<open>y = 0\<close> and \<open>y = 4\<close>.
\<close>

definition corner_lines_image :: image where
  "corner_lines_image =
     \<lparr>img_w = 32, img_h = 12, img_px = (\<lambda>x y. if x = 0 \<or> y = 0 then 0 else 255)\<rparr>"

definition white_image :: image where
  "white_image = \<lparr>img_w = 32, img_h = 12, img_px = (\<lambda>x y. 255)\<rparr>"

definition column_two_rows_image :: image where
  "column_two_rows_image =
     \<lparr>img_w = 32, img_h = 12,
      img_px = (\<lambda>x y. if x = 0 \<or> y = 0 \<or> y = 4 then 0 else 255)\<rparr>"

text \<open>
  Two white images, of 18 by 6 pixels (108 pixels, not a multiple of 8) and of 16 by 6
  pixels, as the files \<^verbatim>\<open>a.png\<close> and \<^verbatim>\<open>b.png\<close>; no other file exists.
\<close>

definition example_files :: "string \<Rightarrow> image option" where
  "example_files path =
     (if path = ''a.png'' then Some \<lparr>img_w = 18, img_h = 6, img_px = (\<lambda>x y. 255)\<rparr>
      else if path = ''b.png'' then Some \<lparr>img_w = 16, img_h = 6, img_px = (\<lambda>x y. 255)\<rparr>
      else None)"

section \<open>The loops compute the list functions\<close>

lemma zero_run_eq_list:
  "zero_run data i count = (i', count') \<Longrightarrow>
     zero_run_list (drop i data) count = (drop i' data, count')"
proof (induction data i count rule: zero_run.induct)
  case (1 data i count)
  show ?case
  proof (cases "i < length data \<and> data ! i = 0 \<and> count < 255")
    case True
    with "1.prems" have "zero_run data (i + 1) (count + 1) = (i', count')"
      by (simp add: zero_run.simps [of data i count])
    with True have "zero_run_list (drop (i + 1) data) (count + 1) = (drop i' data, count')"
      by (rule "1.IH")
    moreover from True have "drop i data = 0 # drop (i + 1) data"
      by (metis Cons_nth_drop_Suc Suc_eq_plus1)
    ultimately show ?thesis using True by simp
  next
    case False
    with "1.prems" have eq: "i' = i" "count' = count"
      by (auto simp add: zero_run.simps [of data i count])
    show ?thesis
    proof (cases "i < length data")
      case True
      then have "drop i data = data ! i # drop (i + 1) data"
        by (metis Cons_nth_drop_Suc Suc_eq_plus1)
      with False True eq show ?thesis by auto
    next
      case False
      with eq show ?thesis by simp
    qed
  qed
qed

lemma rle_loop_eq_list: "rle_loop data i result = result @ rle_encode_list (drop i data)"
proof (induction data i result rule: rle_loop.induct)
  case (1 data i result)
  show ?case
  proof (cases "i < length data")
    case False
    then show ?thesis by (simp add: rle_loop.simps [of data i result])
  next
    case True
    then have d: "drop i data = data ! i # drop (i + 1) data"
      by (metis Cons_nth_drop_Suc Suc_eq_plus1)
    show ?thesis
    proof (cases "data ! i = 0")
      case z: True
      obtain i' count where zr: "zero_run data (i + 1) 1 = (i', count)"
        by (cases "zero_run data (i + 1) 1")
      then have zl: "zero_run_list (drop (i + 1) data) 1 = (drop i' data, count)"
        by (rule zero_run_eq_list)
      from True z zr have "rle_loop data i' (result @ [data ! i] @ [count])
          = (result @ [data ! i] @ [count]) @ rle_encode_list (drop i' data)"
        by (intro "1.IH"(1)) auto
      with True z zr zl d show ?thesis
        by (simp add: rle_loop.simps [of data i result])
    next
      case nz: False
      with True have "rle_loop data (i + 1) (result @ [data ! i])
          = (result @ [data ! i]) @ rle_encode_list (drop (i + 1) data)"
        by (intro "1.IH"(2)) auto
      with True nz d show ?thesis
        by (simp add: rle_loop.simps [of data i result])
    qed
  qed
qed

lemma rle_compress_eq_list: "rle_compress data = rle_encode_list data"
  by (simp add: rle_compress_def rle_loop_eq_list)

lemma rle_decode_loop_eq_list:
  "rle_decode_loop compressed i result = result @ rle_decode_list (drop i compressed)"
proof (induction compressed i result rule: rle_decode_loop.induct)
  case (1 compressed i result)
  show ?case
  proof (cases "i < length compressed")
    case False
    then show ?thesis by (simp add: rle_decode_loop.simps [of compressed i result])
  next
    case True
    then have d: "drop i compressed = compressed ! i # drop (i + 1) compressed"
      by (metis Cons_nth_drop_Suc Suc_eq_plus1)
    show ?thesis
    proof (cases "i + 1 < length compressed")
      case more: True
      then have d2: "drop (i + 1) compressed = compressed ! (i + 1) # drop (i + 2) compressed"
        by (metis Cons_nth_drop_Suc Suc_eq_plus1 add_2_eq_Suc')
      show ?thesis
      proof (cases "compressed ! i = 0")
        case z: True
        with True more have "rle_decode_loop compressed (i + 2)
              (result @ replicate (nat (compressed ! (i + 1))) 0)
            = (result @ replicate (nat (compressed ! (i + 1))) 0)
              @ rle_decode_list (drop (i + 2) compressed)"
          by (intro "1.IH"(1)) auto
        with True more z d d2 show ?thesis
          by (simp add: rle_decode_loop.simps [of compressed i result])
      next
        case nz: False
        with True have "rle_decode_loop compressed (i + 1) (result @ [compressed ! i])
            = (result @ [compressed ! i]) @ rle_decode_list (drop (i + 1) compressed)"
          by (intro "1.IH"(3)) auto
        with True nz d d2 show ?thesis
          by (simp add: rle_decode_loop.simps [of compressed i result])
      qed
    next
      case last: False
      with True have d2: "drop (i + 1) compressed = []" by simp
      show ?thesis
      proof (cases "compressed ! i = 0")
        case z: True
        with True last have "rle_decode_loop compressed (i + 1) (result @ [0])
            = (result @ [0]) @ rle_decode_list (drop (i + 1) compressed)"
          by (intro "1.IH"(2)) auto
        with True last z d d2 show ?thesis
          by (simp add: rle_decode_loop.simps [of compressed i result])
      next
        case nz: False
        with True have "rle_decode_loop compressed (i + 1) (result @ [compressed ! i])
            = (result @ [compressed ! i]) @ rle_decode_list (drop (i + 1) compressed)"
          by (intro "1.IH"(3)) auto
        with True last nz d d2 show ?thesis
          by (simp add: rle_decode_loop.simps [of compressed i result])
      qed
    qed
  qed
qed

lemma rle_decode_eq_list: "rle_decode compressed = rle_decode_list compressed"
  by (simp add: rle_decode_def rle_decode_loop_eq_list)


lemma zero_run_list_replicate:
  "zero_run_list xs count = (rest, count') \<Longrightarrow>
     count \<le> count' \<and> replicate (nat (count' - count)) 0 @ rest = xs"
proof (induction xs arbitrary: count)
  case Nil
  then show ?case by simp
next
  case (Cons x xs)
  show ?case
  proof (cases "x = 0 \<and> count < 255")
    case True
    with Cons.prems have "zero_run_list xs (count + 1) = (rest, count')" by simp
    then have ih: "count + 1 \<le> count' \<and> replicate (nat (count' - (count + 1))) 0 @ rest = xs"
      by (rule Cons.IH)
    then have "nat (count' - count) = Suc (nat (count' - (count + 1)))" by arith
    with ih True show ?thesis by simp
  next
    case False
    with Cons.prems show ?thesis by auto
  qed
qed

lemma zero_run_list_bound:
  "zero_run_list xs count = (rest, count') \<Longrightarrow> count \<le> 255 \<Longrightarrow> count' \<le> 255"
  by (induction xs arbitrary: count) (auto split: if_splits)

lemma rle_decode_list_nonzero: "x \<noteq> 0 \<Longrightarrow> rle_decode_list (x # ys) = x # rle_decode_list ys"
  by (cases ys) simp_all

lemma rle_list_roundtrip: "rle_decode_list (rle_encode_list xs) = xs"
proof (induction xs rule: rle_encode_list.induct)
  case 1
  show ?case by simp
next
  case (2 x xs)
  show ?case
  proof (cases "x = 0")
    case True
    obtain rest count where zr: "zero_run_list xs 1 = (rest, count)"
      by (cases "zero_run_list xs 1")
    with True have ih: "rle_decode_list (rle_encode_list rest) = rest"
      by (intro "2.IH"(1)) auto
    from zr have r: "1 \<le> count \<and> replicate (nat (count - 1)) 0 @ rest = xs"
      by (rule zero_run_list_replicate)
    then have "nat count = Suc (nat (count - 1))" by arith
    then have "replicate (nat count) 0 @ rest = (0::int) # replicate (nat (count - 1)) 0 @ rest"
      by simp
    with r True zr ih show ?thesis by simp
  next
    case False
    then have "rle_decode_list (rle_encode_list xs) = xs" by (rule "2.IH"(2))
    with False show ?thesis by (simp add: rle_decode_list_nonzero)
  qed
qed

lemma well_formed_stream_nonzero: "x \<noteq> 0 \<Longrightarrow> well_formed_stream (x # ys) = well_formed_stream ys"
  by (cases ys) simp_all

lemma rle_encode_list_well_formed_stream: "well_formed_stream (rle_encode_list xs)"
proof (induction xs rule: rle_encode_list.induct)
  case 1
  show ?case by simp
next
  case (2 x xs)
  show ?case
  proof (cases "x = 0")
    case True
    obtain rest count where zr: "zero_run_list xs 1 = (rest, count)"
      by (cases "zero_run_list xs 1")
    with True have ih: "well_formed_stream (rle_encode_list rest)"
      by (intro "2.IH"(1)) auto
    from zr have "1 \<le> count" using zero_run_list_replicate by blast
    moreover from zr have "count \<le> 255" by (rule zero_run_list_bound) simp
    ultimately show ?thesis using True zr ih by simp
  next
    case False
    then have "well_formed_stream (rle_encode_list xs)" by (rule "2.IH"(2))
    with False show ?thesis by (simp add: well_formed_stream_nonzero)
  qed
qed

lemma zero_run_list_append:
  "x \<noteq> 0 \<Longrightarrow> zero_run_list xs count = (rest, count') \<Longrightarrow>
     zero_run_list (xs @ x # ys) count = (rest @ x # ys, count')"
  by (induction xs arbitrary: count) (auto split: if_splits)

lemma rle_encode_list_append:
  "x \<noteq> 0 \<Longrightarrow> rle_encode_list (xs @ x # ys) = rle_encode_list xs @ x # rle_encode_list ys"
proof (induction xs rule: rle_encode_list.induct)
  case 1
  then show ?case by simp
next
  case (2 y xs)
  show ?case
  proof (cases "y = 0")
    case True
    obtain rest count where zr: "zero_run_list xs 1 = (rest, count)"
      by (cases "zero_run_list xs 1")
    with True "2.prems" have ih:
      "rle_encode_list (rest @ x # ys) = rle_encode_list rest @ x # rle_encode_list ys"
      by (intro "2.IH"(1)) auto
    from "2.prems" zr have "zero_run_list (xs @ x # ys) 1 = (rest @ x # ys, count)"
      by (rule zero_run_list_append)
    with True zr ih show ?thesis by simp
  next
    case False
    with "2.prems" have
      "rle_encode_list (xs @ x # ys) = rle_encode_list xs @ x # rle_encode_list ys"
      by (intro "2.IH"(2))
    with False show ?thesis by simp
  qed
qed

lemma rle_encode_list_no_zero: "0 \<notin> set xs \<Longrightarrow> rle_encode_list xs = xs"
  by (induction xs) auto

lemma zero_run_list_zeros:
  "count + int n \<le> 255 \<Longrightarrow>
     zero_run_list (replicate n 0 @ ys) count = zero_run_list ys (count + int n)"
  by (induction n arbitrary: count) (auto simp: add.commute add.left_commute)

lemma rle_encode_list_255: "rle_encode_list (replicate 255 0) = [0, 255]"
proof -
  have "replicate 255 (0::int) = 0 # replicate 254 0" by (simp add: numeral_eq_Suc)
  moreover have "zero_run_list (replicate 254 0) 1 = ([], 255)"
    using zero_run_list_zeros [of 1 254 "[]"] by simp
  ultimately show ?thesis by simp
qed

lemma rle_encode_list_256: "rle_encode_list (replicate 256 0) = [0, 255, 0, 1]"
proof -
  have "replicate 256 (0::int) = 0 # (replicate 254 0 @ [0])"
    by (simp add: numeral_eq_Suc replicate_append_same)
  moreover have "zero_run_list (replicate 254 0 @ [0]) 1 = ([0], 255)"
    using zero_run_list_zeros [of 1 254 "[0]"] by simp
  ultimately show ?thesis by simp
qed

section \<open>Unpacking and packing bits\<close>

lemma unpack_byte_length: "length (unpack_byte byte) = 8"
  by (simp add: unpack_byte_def)

lemma unpack_byte_values: "set (unpack_byte byte) \<subseteq> {0, 255}"
  by (auto simp add: unpack_byte_def)

lemma unpack_bits_values: "set (unpack_bits bs) \<subseteq> {0, 255}"
  using unpack_byte_values by (auto simp add: unpack_bits_def)

lemma decompress_values: "set (decompress_and_verify compressed n) \<subseteq> {0, 255}"
proof -
  have "set (take n (unpack_bits (rle_decode compressed))) \<subseteq> set (unpack_bits (rle_decode compressed))"
    by (rule set_take_subset)
  with unpack_bits_values show ?thesis
    unfolding decompress_and_verify_def by blast
qed

lemma shift_or_bit:
  "(a::int) * 2 OR (if c then 1 else 0) = 2 * a + (if c then 1 else 0)"
  by (simp add: or_one_eq)

lemma step_bit:
  "bit ((a::int) * 2 OR (if c then 1 else 0)) m \<longleftrightarrow> (if m = 0 then c else bit a (m - 1))"
  unfolding shift_or_bit by (cases m) (simp_all add: bit_0 bit_Suc)

lemma fold_bits:
  "bit (fold (\<lambda>j (byte::int). byte * 2 OR (if P j then 1 else 0)) js acc) n
     \<longleftrightarrow> (if n < length js then P (js ! (length js - 1 - n)) else bit acc (n - length js))"
proof (induction js arbitrary: acc n)
  case Nil
  show ?case by simp
next
  case (Cons x xs)
  show ?case
  proof (cases "n < length xs")
    case True
    then have "(x # xs) ! (length (x # xs) - 1 - n) = xs ! (length xs - 1 - n)"
      by (simp add: nth_Cons') 
    with True show ?thesis by (simp add: Cons.IH)
  next
    case False
    then show ?thesis by (auto simp add: Cons.IH step_bit)
  qed
qed

lemma pack_byte_bit:
  "bit (pack_byte pixels i) n \<longleftrightarrow> n < 8 \<and> pixels ! (i + (7 - n)) = 255"
  using fold_bits [of "\<lambda>j. pixels ! (i + j) = 255" "[0..<8]" 0 n]
  by (auto simp add: pack_byte_def)

lemma range8_dvd: "n mod 8 = 0 \<Longrightarrow> range8 n = map (\<lambda>k. 8 * k) [0..<n div 8]"
proof -
  assume "n mod 8 = 0"
  then obtain q where "n = 8 * q" by (auto simp add: mod_eq_0_iff_dvd)
  then have "(n + 7) div 8 = n div 8" by simp
  then show ?thesis by (simp add: range8_def)
qed

lemma fold_update_upt:
  "m \<le> length c0 \<Longrightarrow>
     fold (\<lambda>k c. c[k := h k]) [0..<m] c0 = map h [0..<m] @ drop m c0"
proof (induction m)
  case 0
  show ?case by simp
next
  case (Suc m)
  then have ih: "fold (\<lambda>k c. c[k := h k]) [0..<m] c0 = map h [0..<m] @ drop m c0"
    by simp
  from Suc.prems have d: "drop m c0 = c0 ! m # drop (Suc m) c0"
    by (simp add: Cons_nth_drop_Suc)
  have "fold (\<lambda>k c. c[k := h k]) [0..<Suc m] c0 = (map h [0..<m] @ drop m c0)[m := h m]"
    by (simp add: ih)
  also have "\<dots> = map h [0..<m] @ (drop m c0)[0 := h m]"
    by (simp add: list_update_append)
  also have "\<dots> = map h [0..<Suc m] @ drop (Suc m) c0"
    by (simp add: d)
  finally show ?case .
qed

lemma compress_to_bits_eq:
  assumes "length pixels mod 8 = 0"
  shows "compress_to_bits pixels
           = Inr (map (\<lambda>k. pack_byte pixels (8 * k)) [0..<length pixels div 8])"
proof -
  let ?m = "length pixels div 8"
  have "fold (\<lambda>i compressed. compressed[i div 8 := pack_byte pixels i])
          (map (\<lambda>k. 8 * k) [0..<?m]) (replicate ?m 0)
        = fold (\<lambda>k c. c[k := pack_byte pixels (8 * k)]) [0..<?m] (replicate ?m 0)"
    by (simp add: fold_map comp_def)
  also have "\<dots> = map (\<lambda>k. pack_byte pixels (8 * k)) [0..<?m] @ drop ?m (replicate ?m 0)"
    by (rule fold_update_upt) simp
  finally show ?thesis using assms
    by (simp add: compress_to_bits_def range8_dvd)
qed

lemma fold_bits_range:
  "0 \<le> acc \<Longrightarrow>
     0 \<le> fold (\<lambda>j (byte::int). byte * 2 OR (if P j then 1 else 0)) js acc
     \<and> fold (\<lambda>j (byte::int). byte * 2 OR (if P j then 1 else 0)) js acc
         < 2 ^ length js * (acc + 1)"
proof (induction js arbitrary: acc)
  case Nil
  then show ?case by simp
next
  case (Cons x xs)
  let ?acc' = "acc * 2 OR (if P x then 1 else 0)"
  have eq: "?acc' = 2 * acc + (if P x then 1 else 0)" by (rule shift_or_bit)
  with Cons.prems have nonneg: "0 \<le> ?acc'" by simp
  from eq have "?acc' + 1 \<le> 2 * (acc + 1)" by simp
  then have le: "(2::int) ^ length xs * (?acc' + 1) \<le> 2 ^ length xs * (2 * (acc + 1))"
    by (intro mult_left_mono) simp_all
  let ?F = "fold (\<lambda>j (byte::int). byte * 2 OR (if P j then 1 else 0)) xs ?acc'"
  from Cons.IH [OF nonneg] have ih: "0 \<le> ?F" "?F < 2 ^ length xs * (?acc' + 1)"
    by blast+
  from ih(2) le have "?F < 2 ^ length xs * (2 * (acc + 1))" by (rule less_le_trans)
  moreover have "(2::int) ^ length xs * (2 * (acc + 1)) = 2 ^ length (x # xs) * (acc + 1)"
    by simp
  ultimately have "?F < 2 ^ length (x # xs) * (acc + 1)" by (simp only:)
  moreover have "fold (\<lambda>j (byte::int). byte * 2 OR (if P j then 1 else 0)) (x # xs) acc = ?F"
    by simp
  ultimately show ?case using ih(1) by (simp only:)
qed

lemma pack_byte_mult:
  "pack_byte pixels i
     = fold (\<lambda>j byte. byte * 2 OR (if pixels ! (i + j) = 255 then 1 else 0)) [0..<8] 0"
  by (simp add: pack_byte_def)

lemma pack_byte_range: "0 \<le> pack_byte pixels i \<and> pack_byte pixels i < 256"
proof -
  have "(2::int) ^ length [0..<8::nat] * (0 + 1) = 256" by simp
  with fold_bits_range [of 0 "\<lambda>j. pixels ! (i + j) = 255" "[0..<8]"]
  show ?thesis by (simp only: pack_byte_mult order_refl)
qed




lemma unpack_pack_byte:
  "unpack_byte (pack_byte pixels i)
     = map (\<lambda>j. if pixels ! (i + j) = 255 then 255 else 0) [0..<8]"
proof -
  have "(pack_byte pixels i AND push_bit (7 - b) 1 \<noteq> 0) \<longleftrightarrow> pixels ! (i + b) = 255"
    if "b < 8" for b
  proof -
    have "(pack_byte pixels i AND push_bit (7 - b) 1 \<noteq> 0) \<longleftrightarrow> bit (pack_byte pixels i) (7 - b)"
      by (simp only: bit_iff_and_push_bit_not_eq_0)
    also from that have "\<dots> \<longleftrightarrow> pixels ! (i + b) = 255"
      by (auto simp add: pack_byte_bit)
    finally show ?thesis .
  qed
  then show ?thesis
    unfolding unpack_byte_def by (intro map_cong) simp_all
qed

lemma concat_blocks:
  "length p = 8 * m \<Longrightarrow>
     concat (map (\<lambda>k. map (\<lambda>j. f (p ! (8 * k + j))) [0..<8]) [0..<m]) = map f p"
proof (induction m arbitrary: p)
  case 0
  then show ?case by simp
next
  case (Suc m)
  let ?q = "take (8 * m) p"
  from Suc.prems have lq: "length ?q = 8 * m" by simp
  have "concat (map (\<lambda>k. map (\<lambda>j. f (?q ! (8 * k + j))) [0..<8]) [0..<m]) = map f ?q"
    using lq by (rule Suc.IH)
  moreover have "map (\<lambda>k. map (\<lambda>j. f (?q ! (8 * k + j))) [0..<8]) [0..<m]
      = map (\<lambda>k. map (\<lambda>j. f (p ! (8 * k + j))) [0..<8]) [0..<m]"
    by (intro map_cong refl) simp
  ultimately have front:
    "concat (map (\<lambda>k. map (\<lambda>j. f (p ! (8 * k + j))) [0..<8]) [0..<m]) = map f ?q"
    by simp
  from Suc.prems have ld: "length (drop (8 * m) p) = 8" by simp
  have "map (\<lambda>j. drop (8 * m) p ! j) [0..<length (drop (8 * m) p)] = drop (8 * m) p"
    by (rule map_nth)
  with ld have "map (\<lambda>j. drop (8 * m) p ! j) [0..<8] = drop (8 * m) p" by simp
  moreover from Suc.prems have "map (\<lambda>j. drop (8 * m) p ! j) [0..<8] = map (\<lambda>j. p ! (8 * m + j)) [0..<8]"
    by (intro map_cong refl) simp
  ultimately have "map (\<lambda>j. p ! (8 * m + j)) [0..<8] = drop (8 * m) p" by simp
  then have "map f (map (\<lambda>j. p ! (8 * m + j)) [0..<8]) = map f (drop (8 * m) p)" by simp
  then have last_block: "map (\<lambda>j. f (p ! (8 * m + j))) [0..<8] = map f (drop (8 * m) p)"
    by (simp add: comp_def)
  have "concat (map (\<lambda>k. map (\<lambda>j. f (p ! (8 * k + j))) [0..<8]) [0..<Suc m])
      = map f ?q @ map f (drop (8 * m) p)"
    using front last_block by simp
  also have "\<dots> = map f (?q @ drop (8 * m) p)" by (simp only: map_append)
  also have "\<dots> = map f p" by (simp only: append_take_drop_id)
  finally show ?case .
qed

lemma unpack_pack:
  assumes "length pixels mod 8 = 0" and "set pixels \<subseteq> {0, 255}"
  shows "unpack_bits (map (\<lambda>k. pack_byte pixels (8 * k)) [0..<length pixels div 8]) = pixels"
proof -
  from assms(1) have len: "length pixels = 8 * (length pixels div 8)" by auto
  have "unpack_bits (map (\<lambda>k. pack_byte pixels (8 * k)) [0..<length pixels div 8])
      = concat (map (\<lambda>k. map (\<lambda>j. (\<lambda>v. if v = 255 then 255 else 0) (pixels ! (8 * k + j))) [0..<8])
                    [0..<length pixels div 8])"
    by (simp add: unpack_bits_def comp_def unpack_pack_byte)
  also have "\<dots> = map (\<lambda>v. if v = 255 then 255 else 0) pixels"
    using len by (rule concat_blocks)
  also from assms(2) have "\<dots> = pixels"
    by (intro map_idI) auto
  finally show ?thesis .
qed

section \<open>Binarization\<close>

lemma concat_rows_length:
  "length (concat (map (\<lambda>y. map (g y) [0..<w]) [0..<h])) = h * w"
  by (induction h) simp_all

lemma concat_rows_nth:
  "y < h \<Longrightarrow> x < w \<Longrightarrow> concat (map (\<lambda>y. map (g y) [0..<w]) [0..<h]) ! (y * w + x) = g y x"
proof (induction h)
  case 0
  then show ?case by simp
next
  case (Suc h)
  let ?front = "concat (map (\<lambda>y. map (g y) [0..<w]) [0..<h])"
  have len: "length ?front = h * w" by (rule concat_rows_length)
  have split: "concat (map (\<lambda>y. map (g y) [0..<w]) [0..<Suc h]) = ?front @ map (g h) [0..<w]"
    by simp
  show ?case
  proof (cases "y < h")
    case True
    then have "Suc y \<le> h" by simp
    then have "Suc y * w \<le> h * w" by (rule mult_le_mono1)
    with Suc.prems(2) have "y * w + x < h * w" by simp
    with len have "(?front @ map (g h) [0..<w]) ! (y * w + x) = ?front ! (y * w + x)"
      by (simp add: nth_append)
    with True Suc.prems(2) Suc.IH show ?thesis by (simp only: split)
  next
    case False
    with Suc.prems(1) have "y = h" by simp
    with len Suc.prems(2) have "(?front @ map (g h) [0..<w]) ! (y * w + x) = g y x"
      by (simp add: nth_append)
    then show ?thesis by (simp only: split)
  qed
qed

section \<open>The solid character\<close>

lemma set_py_range: "set (py_range n) = {d. 0 \<le> d \<and> d < n}"
proof (intro set_eqI iffI)
  fix d
  assume "d \<in> set (py_range n)"
  then show "d \<in> {d. 0 \<le> d \<and> d < n}" by (auto simp add: py_range_def)
next
  fix d
  assume "d \<in> {d. 0 \<le> d \<and> d < n}"
  then have "nat d \<in> set [0..<nat n]" and "d = int (nat d)" by auto
  then show "d \<in> set (py_range n)" unfolding py_range_def by (metis image_eqI set_map)
qed

lemma fold_product:
  "fold (\<lambda>dy st. fold (\<lambda>dx st. g dy dx st) dxs st) dys st0
     = fold (\<lambda>(dy, dx). g dy dx) (List.product dys dxs) st0"
  by (induction dys arbitrary: st0) (simp_all add: fold_map comp_def)

lemma fold_paint:
  assumes "\<And>a ps. a \<in> set as \<Longrightarrow> length ps = n \<Longrightarrow>
             stp a (Inr ps) = Inr (if P a then ps[f a := v] else ps)"
    and "length ps = n"
  shows "\<exists>ps'. fold stp as (Inr ps) = Inr ps' \<and> length ps' = n
           \<and> (\<forall>k<n. ps' ! k = (if \<exists>a\<in>set as. P a \<and> f a = k then v else ps ! k))"
  using assms
proof (induction as arbitrary: ps)
  case Nil
  then show ?case by simp
next
  case (Cons a as)
  let ?ps1 = "if P a then ps[f a := v] else ps"
  have s1: "stp a (Inr ps) = Inr ?ps1" using Cons.prems by simp
  have l1: "length ?ps1 = n" using Cons.prems(2) by simp
  have "\<exists>ps'. fold stp as (Inr ?ps1) = Inr ps' \<and> length ps' = n
           \<and> (\<forall>k<n. ps' ! k = (if \<exists>a\<in>set as. P a \<and> f a = k then v else ?ps1 ! k))"
    using Cons.prems(1) l1 by (intro Cons.IH) simp_all
  then obtain ps' where r: "fold stp as (Inr ?ps1) = Inr ps'" "length ps' = n"
    and nth: "\<forall>k<n. ps' ! k = (if \<exists>a\<in>set as. P a \<and> f a = k then v else ?ps1 ! k)"
    by blast
  have n1: "?ps1 ! k = (if P a \<and> f a = k then v else ps ! k)" if "k < n" for k
    using that Cons.prems(2) by (simp add: nth_list_update)
  have "\<forall>k<n. ps' ! k = (if \<exists>b\<in>set (a # as). P b \<and> f b = k then v else ps ! k)"
  proof (intro allI impI)
    fix k assume k: "k < n"
    with nth have "ps' ! k = (if \<exists>a\<in>set as. P a \<and> f a = k then v else ?ps1 ! k)" by blast
    with n1 [OF k] show "ps' ! k = (if \<exists>b\<in>set (a # as). P b \<and> f b = k then v else ps ! k)"
      by auto
  qed
  moreover have "fold stp (a # as) (Inr ps) = Inr ps'" using s1 r(1) by simp
  ultimately show ?case using r(2) by blast
qed

lemma pixel_index_bound:
  fixes x y w h :: int
  assumes "0 \<le> x" "x < w" "0 \<le> y" "y < h"
  shows "0 \<le> y * w + x \<and> y * w + x < w * h"
proof -
  from assms have "0 \<le> y * w" by simp
  with assms have lo: "0 \<le> y * w + x" by simp
  from assms have "y + 1 \<le> h" "0 \<le> w" by simp_all
  then have "(y + 1) * w \<le> h * w" by (rule mult_right_mono)
  moreover from assms have "y * w + x < (y + 1) * w" by (simp add: algebra_simps)
  ultimately have "y * w + x < w * h" by (simp add: mult.commute)
  with lo show ?thesis by simp
qed


lemma solid_step_paint:
  assumes "length ps = nat (w * h)"
  shows "solid_step w h x0 y0 dy dx (Inr ps)
           = Inr (if 0 \<le> x0 + dx \<and> x0 + dx < w \<and> 0 \<le> y0 + dy \<and> y0 + dy < h
                  then ps[nat ((y0 + dy) * w + (x0 + dx)) := 255] else ps)"
proof (cases "0 \<le> x0 + dx \<and> x0 + dx < w \<and> 0 \<le> y0 + dy \<and> y0 + dy < h")
  case True
  then have "0 \<le> (y0 + dy) * w + (x0 + dx) \<and> (y0 + dy) * w + (x0 + dx) < w * h"
    by (intro pixel_index_bound) simp_all
  with assms have "set_pixel ps ((y0 + dy) * w + (x0 + dx))
      = Inr (ps[nat ((y0 + dy) * w + (x0 + dx)) := 255])"
    by (simp add: set_pixel_def Let_def)
  with True show ?thesis by (simp add: solid_step_def Let_def)
next
  case False
  then show ?thesis by (auto simp add: solid_step_def Let_def)
qed


lemma generate_solid_char_paint:
  assumes "cols \<noteq> 0" and "length pixels = nat (w * h)"
  shows "\<exists>pixels'. generate_solid_char pixels w h cols rows char_w char_h = Inr pixels'
     \<and> length pixels' = length pixels
     \<and> (\<forall>k<length pixels. pixels' ! k =
           (if \<exists>dy dx. 0 \<le> dy \<and> dy < char_h \<and> 0 \<le> dx \<and> dx < char_w
                  \<and> 0 \<le> (95 mod cols) * char_w + dx \<and> (95 mod cols) * char_w + dx < w
                  \<and> 0 \<le> (95 div cols) * char_h + dy \<and> (95 div cols) * char_h + dy < h
                  \<and> nat (((95 div cols) * char_h + dy) * w + ((95 mod cols) * char_w + dx)) = k
            then 255 else pixels ! k))"
proof -
  let ?x0 = "(95 mod cols) * char_w" and ?y0 = "(95 div cols) * char_h"
  let ?P = "\<lambda>(dy, dx). 0 \<le> ?x0 + dx \<and> ?x0 + dx < w \<and> 0 \<le> ?y0 + dy \<and> ?y0 + dy < h"
  let ?f = "\<lambda>(dy, dx). nat ((?y0 + dy) * w + (?x0 + dx))"
  let ?stp = "\<lambda>(dy, dx). solid_step w h ?x0 ?y0 dy dx"
  let ?as = "List.product (py_range char_h) (py_range char_w)"
  have step: "?stp a (Inr ps) = Inr (if ?P a then ps[?f a := 255] else ps)"
    if "length ps = length pixels" for a ps
    using that assms(2) by (cases a) (simp add: solid_step_paint)
  have "\<exists>ps'. fold ?stp ?as (Inr pixels) = Inr ps' \<and> length ps' = length pixels
           \<and> (\<forall>k<length pixels. ps' ! k
                  = (if \<exists>a\<in>set ?as. ?P a \<and> ?f a = k then 255 else pixels ! k))"
    by (rule fold_paint) (simp_all add: step)
  then obtain ps' where r: "fold ?stp ?as (Inr pixels) = Inr ps'" "length ps' = length pixels"
    and nth: "\<forall>k<length pixels. ps' ! k
                  = (if \<exists>a\<in>set ?as. ?P a \<and> ?f a = k then 255 else pixels ! k)"
    by blast
  have gen: "generate_solid_char pixels w h cols rows char_w char_h = Inr ps'"
    using assms(1) r(1) by (simp add: generate_solid_char_def Let_def fold_product)
  have ex: "(\<exists>a\<in>set ?as. ?P a \<and> ?f a = k)
      \<longleftrightarrow> (\<exists>dy dx. 0 \<le> dy \<and> dy < char_h \<and> 0 \<le> dx \<and> dx < char_w
                  \<and> 0 \<le> ?x0 + dx \<and> ?x0 + dx < w \<and> 0 \<le> ?y0 + dy \<and> ?y0 + dy < h
                  \<and> nat ((?y0 + dy) * w + (?x0 + dx)) = k)" for k
    by (auto simp add: set_py_range)
  from nth have "\<forall>k<length pixels. ps' ! k =
           (if \<exists>dy dx. 0 \<le> dy \<and> dy < char_h \<and> 0 \<le> dx \<and> dx < char_w
                  \<and> 0 \<le> ?x0 + dx \<and> ?x0 + dx < w \<and> 0 \<le> ?y0 + dy \<and> ?y0 + dy < h
                  \<and> nat ((?y0 + dy) * w + (?x0 + dx)) = k
            then 255 else pixels ! k)"
    by (simp only: ex)
  with gen r(2) show ?thesis by blast
qed

section \<open>Exceptions in the pipeline and the batch loop\<close>

lemma grid_layout_error: "grid_layout a img = Inl e \<Longrightarrow> e = ZeroDivisionError"
  by (auto simp add: grid_layout_def Let_def split: option.splits prod.splits if_splits)

lemma size_warning_error: "size_warning w h char_w char_h = Inl e \<Longrightarrow> e = ZeroDivisionError"
  by (auto simp add: size_warning_def split: if_splits)

lemma compress_to_bits_error: "compress_to_bits pixels = Inl e \<Longrightarrow> e = AssertionError"
  by (auto simp add: compress_to_bits_def split: if_splits)

lemma solid_step_error:
  "solid_step w h x0 y0 dy dx st = Inl e \<Longrightarrow> st = Inl e \<or> e = IndexError"
  by (auto simp add: solid_step_def set_pixel_def Let_def split: sum.splits if_splits)

lemma fold_solid_step_error:
  "fold (\<lambda>dx st. solid_step w h x0 y0 dy dx st) dxs st = Inl e \<Longrightarrow> st = Inl e \<or> e = IndexError"
proof (induction dxs arbitrary: st)
  case Nil
  then show ?case by simp
next
  case (Cons dx dxs)
  then have "solid_step w h x0 y0 dy dx st = Inl e \<or> e = IndexError" by simp
  then show ?case using solid_step_error by blast
qed

lemma fold_rows_error:
  "fold (\<lambda>dy st. fold (\<lambda>dx st. solid_step w h x0 y0 dy dx st) dxs st) dys st = Inl e
     \<Longrightarrow> st = Inl e \<or> e = IndexError"
proof (induction dys arbitrary: st)
  case Nil
  then show ?case by simp
next
  case (Cons dy dys)
  then have "fold (\<lambda>dx st. solid_step w h x0 y0 dy dx st) dxs st = Inl e \<or> e = IndexError"
    by simp
  then show ?case using fold_solid_step_error by blast
qed

lemma generate_solid_char_error:
  "generate_solid_char pixels w h cols rows char_w char_h = Inl e
     \<Longrightarrow> e = ZeroDivisionError \<or> e = IndexError"
  using fold_rows_error [of w h _ _ _ _ "Inr pixels" e]
  by (auto simp add: generate_solid_char_def Let_def split: if_splits)

lemma process_image_error:
  assumes "process_image files path a = Inl e"
  shows "e \<in> {LoadError, ZeroDivisionError, IndexError, AssertionError, ValueError, SystemExit 1}"
proof (cases "files path")
  case None
  with assms show ?thesis by (simp add: process_image_def)
next
  case (Some img)
  show ?thesis
  proof (cases "grid_layout a img")
    case (Inl e1)
    with assms Some have "e = e1" by (simp add: process_image_def Let_def)
    with Inl show ?thesis by (auto dest: grid_layout_error)
  next
    case (Inr layout)
    obtain cols rows char_w char_h where layout: "layout = (cols, rows, char_w, char_h)"
      by (cases layout)
    show ?thesis
    proof (cases "size_warning (int (img_w img)) (int (img_h img)) char_w char_h")
      case (Inl e1)
      with assms Some Inr layout have "e = e1"
        by (simp add: process_image_def Let_def)
      with Inl show ?thesis by (auto dest: size_warning_error)
    next
      case warned: (Inr warned)
      let ?px = "if solid a
            then generate_solid_char (binarize_image img (threshold a))
                   (int (img_w img)) (int (img_h img)) cols rows char_w char_h
            else Inr (binarize_image img (threshold a))"
      show ?thesis
      proof (cases ?px)
        case (Inl e1)
        with assms Some Inr layout warned have "e = e1"
          by (simp add: process_image_def Let_def)
        with Inl show ?thesis
          by (auto split: if_splits dest: generate_solid_char_error)
      next
        case pixels: (Inr pixels)
        let ?comp = "if raw a then Inr pixels
            else (case compress_to_bits pixels of
                    Inl e \<Rightarrow> Inl e
                  | Inr bit_packed \<Rightarrow> Inr (rle_compress bit_packed))"
        show ?thesis
        proof (cases ?comp)
          case (Inl e1)
          with assms Some Inr layout warned pixels have "e = e1"
            by (simp add: process_image_def Let_def)
          with Inl show ?thesis
            by (auto split: if_splits sum.splits dest: compress_to_bits_error)
        next
          case compressed: (Inr compressed)
          with assms Some Inr layout warned pixels show ?thesis
            by (simp add: process_image_def Let_def split: if_splits)
        qed
      qed
    qed
  qed
qed

lemma process_image_exit_status:
  "process_image files path a = Inl e \<Longrightarrow> exit_status (Some e) = 1"
  using process_image_error [of files path a e] by auto

lemma batch_loop_stops:
  assumes "\<forall>p\<in>set before. \<exists>out. process_image files p a = Inr out"
    and "process_image files failing a = Inl e"
  shows "batch_loop files a (before @ failing # rest) outputs
           = (outputs @ map (\<lambda>p. (p, projr (process_image files p a))) before, Some e)"
  using assms(1)
proof (induction before arbitrary: outputs)
  case Nil
  with assms(2) show ?case by simp
next
  case (Cons p ps)
  then obtain out where out: "process_image files p a = Inr out" by auto
  from Cons have "batch_loop files a (ps @ failing # rest) (outputs @ [(p, out)])
      = ((outputs @ [(p, out)]) @ map (\<lambda>p. (p, projr (process_image files p a))) ps, Some e)"
    by (intro Cons.IH) simp
  with out show ?case by simp
qed

section \<open>The verification step and the batch loop when nothing fails\<close>

lemma binarize_image_values: "set (binarize_image img thr) \<subseteq> {0, 255}"
  unfolding binarize_image_def by auto

lemma binarize_image_length: "length (binarize_image img thr) = img_w img * img_h img"
  unfolding binarize_image_def by (simp only: concat_rows_length mult.commute)

lemma generate_solid_char_values:
  assumes "generate_solid_char pixels w h cols rows char_w char_h = Inr pixels'"
    and "length pixels = nat (w * h)" and "set pixels \<subseteq> {0, 255}"
  shows "set pixels' \<subseteq> {0, 255}"
proof -
  from assms(1) have "cols \<noteq> 0"
    by (auto simp add: generate_solid_char_def split: if_splits)
  from generate_solid_char_paint [OF this assms(2), of rows char_w char_h] assms(1)
  have len: "length pixels' = length pixels"
    and nth: "\<And>k. k < length pixels \<Longrightarrow> pixels' ! k = 255 \<or> pixels' ! k = pixels ! k"
    by auto
  show ?thesis
  proof
    fix v assume "v \<in> set pixels'"
    then obtain k where k: "k < length pixels'" "v = pixels' ! k"
      by (auto simp add: in_set_conv_nth)
    with len nth [of k] have "v = 255 \<or> v = pixels ! k" by simp
    moreover from k len have "pixels ! k \<in> set pixels" by simp
    ultimately show "v \<in> {0, 255}" using assms(3) by auto
  qed
qed

lemma verify_roundtrip:
  assumes "compress_to_bits p = Inr bit_packed" and "set p \<subseteq> {0, 255}"
  shows "decompress_and_verify (rle_compress bit_packed) (length p) = p"
proof -
  let ?bp = "map (\<lambda>k. pack_byte p (8 * k)) [0..<length p div 8]"
  from assms(1) have m: "length p mod 8 = 0"
    by (auto simp add: compress_to_bits_def split: if_splits)
  with assms(1) have bp: "bit_packed = ?bp" by (simp add: compress_to_bits_eq)
  have "rle_decode (rle_compress ?bp) = ?bp"
    by (simp add: rle_compress_eq_list rle_decode_eq_list rle_list_roundtrip)
  then have "decompress_and_verify (rle_compress ?bp) (length p) = take (length p) (unpack_bits ?bp)"
    by (simp add: decompress_and_verify_def)
  with m assms(2) have "decompress_and_verify (rle_compress ?bp) (length p) = p"
    by (simp add: unpack_pack)
  with bp show ?thesis by simp
qed

lemma verification_never_fails: "process_image files path a \<noteq> Inl (SystemExit n)"
proof
  assume sx: "process_image files path a = Inl (SystemExit n)"
  then obtain img where img: "files path = Some img"
    by (cases "files path") (simp_all add: process_image_def)
  let ?w = "int (img_w img)" and ?h = "int (img_h img)"
  let ?bin = "binarize_image img (threshold a)"
  have binlen: "length ?bin = nat (?w * ?h)"
    by (simp add: binarize_image_length nat_mult_distrib)
  from sx img obtain cols rows char_w char_h
    where layout: "grid_layout a img = Inr (cols, rows, char_w, char_h)"
    by (cases "grid_layout a img")
       (auto simp add: process_image_def Let_def dest: grid_layout_error)
  from sx img layout obtain warned
    where warned: "size_warning ?w ?h char_w char_h = Inr warned"
    by (cases "size_warning ?w ?h char_w char_h")
       (auto simp add: process_image_def Let_def dest: size_warning_error)
  let ?px = "if solid a then generate_solid_char ?bin ?w ?h cols rows char_w char_h
             else Inr ?bin"
  from sx img layout warned obtain pixels where pixels: "?px = Inr pixels"
    by (cases ?px) (auto simp add: process_image_def Let_def
          split: if_splits dest: generate_solid_char_error)
  have vals: "set pixels \<subseteq> {0, 255}"
  proof (cases "solid a")
    case True
    with pixels have "generate_solid_char ?bin ?w ?h cols rows char_w char_h = Inr pixels"
      by simp
    then show ?thesis using binlen binarize_image_values by (rule generate_solid_char_values)
  next
    case False
    with pixels binarize_image_values [of img "threshold a"] show ?thesis by simp
  qed
  let ?comp = "if raw a then Inr pixels
            else (case compress_to_bits pixels of
                    Inl e \<Rightarrow> Inl e
                  | Inr bit_packed \<Rightarrow> Inr (rle_compress bit_packed))"
  from sx img layout warned pixels obtain compressed where compressed: "?comp = Inr compressed"
    by (cases ?comp) (auto simp add: process_image_def Let_def
          split: if_splits sum.splits dest: compress_to_bits_error)
  from sx img layout warned pixels compressed
  have fail: "verify a \<and> \<not> raw a \<and> decompress_and_verify compressed (length pixels) \<noteq> pixels"
    by (simp add: process_image_def Let_def split: if_splits)
  with compressed obtain bit_packed
    where "compress_to_bits pixels = Inr bit_packed" "compressed = rle_compress bit_packed"
    by (auto split: sum.splits)
  with vals have "decompress_and_verify compressed (length pixels) = pixels"
    by (simp add: verify_roundtrip)
  with fail show False by simp
qed

lemma batch_loop_all:
  assumes "\<forall>p\<in>set ps. \<exists>out. process_image files p a = Inr out"
  shows "batch_loop files a ps outputs
           = (outputs @ map (\<lambda>p. (p, projr (process_image files p a))) ps, None)"
  using assms
proof (induction ps arbitrary: outputs)
  case Nil
  show ?case by simp
next
  case (Cons p ps)
  then obtain out where out: "process_image files p a = Inr out" by auto
  from Cons have "batch_loop files a ps (outputs @ [(p, out)])
      = ((outputs @ [(p, out)]) @ map (\<lambda>p. (p, projr (process_image files p a))) ps, None)"
    by (intro Cons.IH) simp
  with out show ?case by simp
qed

section \<open>The claims\<close>

text \<open>
  C1. For every byte sequence \<open>B\<close> (the empty one included), decoding the RLE-encoded
  form of \<open>B\<close> gives \<open>B\<close> back, also when the decoded bytes are cut to \<open>len(B)\<close>.
  The decoder is the byte-level loop of \<^verbatim>\<open>decompress_and_verify\<close>. The statement
  holds for every list of Python integers, bytes or not.
\<close>

theorem rle_roundtrip:
  "rle_decode (rle_compress B) = B \<and> take (length B) (rle_decode (rle_compress B)) = B"
  by (simp add: rle_compress_eq_list rle_decode_eq_list rle_list_roundtrip)

theorem rle_roundtrip_witness:
  "rle_compress [0, 0, 7, 0, 255] = [0, 2, 7, 0, 1, 255]
   \<and> rle_decode [0, 2, 7, 0, 1, 255] = [0, 0, 7, 0, 255]
   \<and> rle_decode (rle_compress []) = []"
proof -
  have a: "rle_compress [0, 0, 7, 0, 255] = [0, 2, 7, 0, 1, 255]" by code_simp
  from rle_roundtrip [of "[0, 0, 7, 0, 255]"] a rle_roundtrip [of "[]"]
  show ?thesis by simp
qed

text \<open>
  C4. The output of \<^verbatim>\<open>rle_compress\<close> is a well-formed stream: every 0 in an
  encoding position is followed by a count byte in \<open>[1, 255]\<close>. Every non-zero input
  byte is emitted as itself, with no count byte after it: the encoding of the input
  is the encoding of what precedes the byte, the byte, and the encoding of what
  follows it. An input without a 0 is encoded as itself.
\<close>

theorem rle_compress_structure:
  "well_formed_stream (rle_compress data)
   \<and> (\<forall>xs x ys. data = xs @ x # ys \<and> x \<noteq> 0 \<longrightarrow>
          rle_compress data = rle_compress xs @ x # rle_compress ys)
   \<and> (0 \<notin> set data \<longrightarrow> rle_compress data = data)"
  by (simp add: rle_compress_eq_list rle_encode_list_well_formed_stream
      rle_encode_list_append rle_encode_list_no_zero)

theorem rle_compress_structure_witness:
  "well_formed_stream (rle_compress [0, 0, 7, 0])
   \<and> rle_compress [0, 0, 7, 0] = rle_compress [0, 0] @ 7 # rle_compress [0]
   \<and> rle_compress [0, 0, 7, 0] = [0, 2, 7, 0, 1]
   \<and> rle_compress [3, 255, 1] = [3, 255, 1]
   \<and> \<not> well_formed_stream [0, 0, 7] \<and> \<not> well_formed_stream [7, 0]"
proof -
  have a: "rle_compress [0, 0] = [0, 2]" "rle_compress [0] = [0, 1]" by code_simp+
  have b: "[0, 0, 7, 0] = [0, 0] @ 7 # [0::int]" "(7::int) \<noteq> 0" by simp_all
  have c: "0 \<notin> set [3, 255, 1::int]" by simp
  from rle_compress_structure [of "[0, 0, 7, 0]"] b
  have "well_formed_stream (rle_compress [0, 0, 7, 0])"
    and "rle_compress [0, 0, 7, 0] = rle_compress [0, 0] @ 7 # rle_compress [0]"
    by blast+
  moreover from rle_compress_structure [of "[3, 255, 1]"] c
  have "rle_compress [3, 255, 1] = [3, 255, 1]" by blast
  ultimately show ?thesis using a by simp
qed

text \<open>
  C5. 255 zero bytes are encoded as \<open>[0, 255]\<close>, and 256 zero bytes as
  \<open>[0, 255, 0, 1]\<close>: a run is split at 255.
\<close>

theorem rle_compress_run_boundary:
  "rle_compress (replicate 255 0) = [0, 255]
   \<and> rle_compress (replicate 256 0) = [0, 255, 0, 1]"
  by (simp only: rle_compress_eq_list rle_encode_list_255 rle_encode_list_256)

text \<open>
  C10. \<^verbatim>\<open>decompress_and_verify\<close> is total: \<open>rle_decode_loop\<close> is a function with a
  termination proof, defined on every list, and no operation of it can raise. The
  result has at most \<open>original_size\<close> elements, each 0 or 255. In the decoding loop, at
  any index and with any result so far, a 0 followed by the count byte 0 adds nothing
  to the result, and a 0 that is the last byte of the stream adds a single 0.
\<close>

theorem decompress_and_verify_total:
  "length (decompress_and_verify compressed original_size) \<le> original_size
   \<and> set (decompress_and_verify compressed original_size) \<subseteq> {0, 255}
   \<and> (i + 1 < length compressed \<and> compressed ! i = 0 \<and> compressed ! (i + 1) = 0 \<longrightarrow>
        rle_decode_loop compressed i result = rle_decode_loop compressed (i + 2) result)
   \<and> (i + 1 = length compressed \<and> compressed ! i = 0 \<longrightarrow>
        rle_decode_loop compressed i result = result @ [0])"
proof (intro conjI impI)
  show "length (decompress_and_verify compressed original_size) \<le> original_size"
    by (simp add: decompress_and_verify_def)
  show "set (decompress_and_verify compressed original_size) \<subseteq> {0, 255}"
    by (rule decompress_values)
next
  assume "i + 1 < length compressed \<and> compressed ! i = 0 \<and> compressed ! (i + 1) = 0"
  then show "rle_decode_loop compressed i result = rle_decode_loop compressed (i + 2) result"
    by (simp add: rle_decode_loop.simps [of compressed i result])
next
  assume a: "i + 1 = length compressed \<and> compressed ! i = 0"
  have "rle_decode_loop compressed (length compressed) (result @ [0]) = result @ [0]"
    by (simp add: rle_decode_loop.simps [of compressed "length compressed"])
  with a show "rle_decode_loop compressed i result = result @ [0]"
    by (simp add: rle_decode_loop.simps [of compressed i result])
qed

theorem decompress_and_verify_total_witness:
  "length (decompress_and_verify [0, 0, 129, 0] 20) \<le> 20
   \<and> decompress_and_verify [0, 0, 129, 0] 20
       = [255, 0, 0, 0, 0, 0, 0, 255, 0, 0, 0, 0, 0, 0, 0, 0]
   \<and> rle_decode_loop [0, 0, 129, 0] 0 [] = rle_decode_loop [0, 0, 129, 0] 2 []
   \<and> rle_decode_loop [0, 0, 129, 0] 3 [129] = [129, 0]
   \<and> rle_decode [0, 0, 129, 0] = [129, 0]"
proof -
  have a: "decompress_and_verify [0, 0, 129, 0] 20
       = [255, 0, 0, 0, 0, 0, 0, 255, 0, 0, 0, 0, 0, 0, 0, 0]" by code_simp
  have b: "rle_decode [0, 0, 129, 0] = [129, 0]" by code_simp
  from decompress_and_verify_total [of "[0, 0, 129, 0]" 20 0 "[]"]
  have "rle_decode_loop [0, 0, 129, 0] 0 [] = rle_decode_loop [0, 0, 129, 0] 2 []"
    by (simp add: numeral_2_eq_2)
  moreover from decompress_and_verify_total [of "[0, 0, 129, 0]" 20 3 "[129]"]
  have "rle_decode_loop [0, 0, 129, 0] 3 [129] = [129, 0]" by simp
  ultimately show ?thesis using a b by simp
qed

text \<open>
  C3. \<^verbatim>\<open>compress_to_bits\<close> fails exactly when the pixel count is not divisible by
  8, and then with the assertion error of line 50. Otherwise it returns
  \<open>length / 8\<close> bytes, and bit \<open>7 - j\<close> of byte \<open>i\<close> is set exactly when pixel
  \<open>8 * i + j\<close> equals 255; the byte has no bit above bit 7.
\<close>

theorem compress_to_bits_spec:
  "((\<exists>e. compress_to_bits pixels = Inl e) \<longleftrightarrow> length pixels mod 8 \<noteq> 0)
   \<and> (length pixels mod 8 \<noteq> 0 \<longrightarrow> compress_to_bits pixels = Inl AssertionError)
   \<and> (length pixels mod 8 = 0 \<longrightarrow>
        (\<exists>bytes. compress_to_bits pixels = Inr bytes
           \<and> length bytes = length pixels div 8
           \<and> (\<forall>i j. i < length bytes \<and> j < 8 \<longrightarrow>
                 (bit (bytes ! i) (7 - j) \<longleftrightarrow> pixels ! (8 * i + j) = 255))
           \<and> (\<forall>i n. i < length bytes \<and> 8 \<le> n \<longrightarrow> \<not> bit (bytes ! i) n)))"
proof (cases "length pixels mod 8 = 0")
  case True
  then show ?thesis
    by (auto simp add: compress_to_bits_eq pack_byte_bit)
next
  case False
  then show ?thesis by (simp add: compress_to_bits_def)
qed

theorem compress_to_bits_spec_witness:
  "compress_to_bits [255, 0, 0, 7, 255, 255, 0, 0] = Inr [140]
   \<and> length [140::int] = length [255, 0, 0, 7, 255, 255, 0, 0::int] div 8
   \<and> bit (140::int) 7 \<and> \<not> bit (140::int) 4 \<and> bit (140::int) 3
   \<and> compress_to_bits [255, 0, 0] = Inl AssertionError"
proof -
  have a: "compress_to_bits [255, 0, 0, 7, 255, 255, 0, 0] = Inr [140]" by code_simp
  from compress_to_bits_spec [of "[255, 0, 0, 7, 255, 255, 0, 0]"] a
  have b: "\<forall>i j. i < length [140::int] \<and> j < 8 \<longrightarrow>
             (bit ([140::int] ! i) (7 - j) \<longleftrightarrow> [255, 0, 0, 7, 255, 255, 0, 0::int] ! (8 * i + j) = 255)"
    by simp
  from b [rule_format, of 0 0] have b7: "bit (140::int) 7" by simp
  from b [rule_format, of 0 3] have b4: "\<not> bit (140::int) 4" by simp
  from b [rule_format, of 0 4] have b3: "bit (140::int) 3" by simp
  from compress_to_bits_spec [of "[255, 0, 0]"]
  have c: "compress_to_bits [255, 0, 0] = Inl AssertionError" by simp
  from a b7 b4 b3 c show ?thesis by simp
qed


text \<open>
  C2. For every pixel sequence over \<open>{0, 255}\<close> whose length is divisible by 8,
  packing succeeds, and \<^verbatim>\<open>decompress_and_verify\<close> applied to the RLE-compressed
  packed bytes and the pixel count gives the pixel sequence back.
\<close>

theorem pipeline_roundtrip:
  assumes "set p \<subseteq> {0, 255}" and "length p mod 8 = 0"
  shows "\<exists>bit_packed. compress_to_bits p = Inr bit_packed
           \<and> decompress_and_verify (rle_compress bit_packed) (length p) = p"
proof -
  let ?bp = "map (\<lambda>k. pack_byte p (8 * k)) [0..<length p div 8]"
  from assms(2) have "compress_to_bits p = Inr ?bp" by (rule compress_to_bits_eq)
  moreover have "rle_decode (rle_compress ?bp) = ?bp"
    by (simp add: rle_compress_eq_list rle_decode_eq_list rle_list_roundtrip)
  then have "decompress_and_verify (rle_compress ?bp) (length p) = take (length p) (unpack_bits ?bp)"
    by (simp add: decompress_and_verify_def)
  with assms have "decompress_and_verify (rle_compress ?bp) (length p) = p"
    by (simp add: unpack_pack)
  ultimately show ?thesis by blast
qed

theorem pipeline_roundtrip_witness:
  "set [0, 0, 0, 0, 0, 0, 0, 0, 255, 0, 255, 255, 0, 0, 0, 255] \<subseteq> {0, 255 :: int}
   \<and> length [0, 0, 0, 0, 0, 0, 0, 0, 255, 0, 255, 255, 0, 0, 0, 255 :: int] mod 8 = 0
   \<and> compress_to_bits [0, 0, 0, 0, 0, 0, 0, 0, 255, 0, 255, 255, 0, 0, 0, 255] = Inr [0, 177]
   \<and> rle_compress [0, 177] = [0, 1, 177]
   \<and> decompress_and_verify [0, 1, 177] 16
       = [0, 0, 0, 0, 0, 0, 0, 0, 255, 0, 255, 255, 0, 0, 0, 255]"
proof -
  let ?p = "[0, 0, 0, 0, 0, 0, 0, 0, 255, 0, 255, 255, 0, 0, 0, 255 :: int]"
  have h1: "set ?p \<subseteq> {0, 255}" by simp
  have h2: "length ?p mod 8 = 0" by simp
  have a: "compress_to_bits ?p = Inr [0, 177]" by code_simp
  have b: "rle_compress [0, 177] = [0, 1, 177]" by code_simp
  have l: "length ?p = 16" by simp
  from pipeline_roundtrip [OF h1 h2] obtain bit_packed
    where c: "compress_to_bits ?p = Inr bit_packed"
      and d: "decompress_and_verify (rle_compress bit_packed) (length ?p) = ?p"
    by blast
  from a c have "bit_packed = [0, 177]" by simp
  with b d have "decompress_and_verify [0, 1, 177] (length ?p) = ?p" by simp
  then have "decompress_and_verify [0, 1, 177] 16 = ?p" by (simp only: l)
  with h1 h2 a b show ?thesis by (intro conjI)
qed

text \<open>
  C7. For every image and every threshold, \<^verbatim>\<open>binarize_image\<close> returns one value
  per sample, in row-major order: 255 where the sample is at least the threshold, 0
  where it is below. Every output value is 0 or 255.
\<close>

theorem binarize_image_spec:
  "length (binarize_image img thr) = img_w img * img_h img
   \<and> (\<forall>x y. x < img_w img \<and> y < img_h img \<longrightarrow>
          binarize_image img thr ! (y * img_w img + x)
            = (if img_px img x y \<ge> thr then 255 else 0))
   \<and> set (binarize_image img thr) \<subseteq> {0, 255}"
proof (intro conjI allI impI)
  show "length (binarize_image img thr) = img_w img * img_h img"
    unfolding binarize_image_def by (simp only: concat_rows_length mult.commute)
next
  fix x y
  assume "x < img_w img \<and> y < img_h img"
  then have "concat (map (\<lambda>y. map (\<lambda>x. if img_px img x y < thr then 0 else (255::int))
                           [0..<img_w img]) [0..<img_h img]) ! (y * img_w img + x)
      = (if img_px img x y < thr then 0 else 255)"
    by (intro concat_rows_nth) simp_all
  then show "binarize_image img thr ! (y * img_w img + x)
            = (if img_px img x y \<ge> thr then 255 else 0)"
    unfolding binarize_image_def by (simp add: not_less)
next
  show "set (binarize_image img thr) \<subseteq> {0, 255}"
    unfolding binarize_image_def by auto
qed

theorem binarize_image_spec_witness:
  "binarize_image \<lparr>img_w = 3, img_h = 2, img_px = (\<lambda>x y. 127 + int x + int y)\<rparr> 128
     = [0, 255, 255, 255, 255, 255]
   \<and> binarize_image \<lparr>img_w = 3, img_h = 2, img_px = (\<lambda>x y. 127 + int x + int y)\<rparr> 128 ! 1 = 255
   \<and> length (binarize_image \<lparr>img_w = 3, img_h = 2, img_px = (\<lambda>x y. 127 + int x + int y)\<rparr> 128) = 6"
proof -
  let ?img = "\<lparr>img_w = 3, img_h = 2, img_px = (\<lambda>x y. 127 + int x + int y)\<rparr>"
  have a: "binarize_image ?img 128 = [0, 255, 255, 255, 255, 255]" by code_simp
  from binarize_image_spec [of ?img 128]
  have b: "length (binarize_image ?img 128) = 6"
    and c: "\<forall>x y. x < img_w ?img \<and> y < img_h ?img \<longrightarrow>
          binarize_image ?img 128 ! (y * img_w ?img + x)
            = (if img_px ?img x y \<ge> 128 then 255 else 0)"
    by simp_all
  from c [rule_format, of 1 0] have "binarize_image ?img 128 ! 1 = 255" by simp
  with a b show ?thesis by (intro conjI)
qed

text \<open>
  C6, as stated: with fewer than 2 separators in an axis, detection fails and the
  layout is the fallback one. The code tests \<^verbatim>\<open>v_seps and h_seps\<close>, that is, that
  both lists are non-empty, and handles a list of one separator on purpose
  (\<^verbatim>\<open>if len(v_seps) > 1 else w\<close>). An image with exactly one dark column and one
  dark row is detected as a grid of one cell, and the fallback is not taken.
\<close>

theorem grid_fallback_counterexample:
  "v_seps corner_lines_image 128 = [0]
   \<and> h_seps corner_lines_image 128 = [0]
   \<and> length (v_seps corner_lines_image 128) < 2
   \<and> length (h_seps corner_lines_image 128) < 2
   \<and> detect_grid corner_lines_image 128 = Some (1, 1, 32, 12)
   \<and> grid_layout (default_args ''font.png'') corner_lines_image = Inr (1, 1, 32, 12)
   \<and> grid_layout (default_args ''font.png'') corner_lines_image
         \<noteq> Inr (16, 6, int (img_w corner_lines_image) div 16, int (img_h corner_lines_image) div 6)"
  by code_simp


text \<open>
  C6, amended: without \<^verbatim>\<open>--grid\<close> and \<^verbatim>\<open>--char-size\<close>, detection fails exactly
  when no vertical separator or no horizontal separator is found, and then the layout
  is 16 columns, 6 rows, cells of \<open>width div 16\<close> by \<open>height div 6\<close>. When both axes
  have a separator the detected layout is used, and each axis is settled on its own:
  an axis with exactly one separator gives one column (row) of the full width
  (height) of the image, whatever the other axis has; an axis with more than one gives
  one column (row) fewer than it has separators, of the distance between the first
  two. With exactly one separator in each axis the layout is one cell of the size of
  the image.
\<close>

theorem grid_fallback:
  assumes "grid a = None" and "char_size a = None"
  shows "(detect_grid img (threshold a) = None
            \<longleftrightarrow> v_seps img (threshold a) = [] \<or> h_seps img (threshold a) = [])
   \<and> (v_seps img (threshold a) = [] \<or> h_seps img (threshold a) = [] \<longrightarrow>
         grid_layout a img = Inr (16, 6, int (img_w img) div 16, int (img_h img) div 6))
   \<and> (v_seps img (threshold a) \<noteq> [] \<and> h_seps img (threshold a) \<noteq> [] \<longrightarrow>
         (\<exists>detected. detect_grid img (threshold a) = Some detected
                      \<and> grid_layout a img = Inr detected))
   \<and> (length (v_seps img (threshold a)) = 1 \<and> length (h_seps img (threshold a)) = 1 \<longrightarrow>
         grid_layout a img = Inr (1, 1, int (img_w img), int (img_h img)))
   \<and> (length (v_seps img (threshold a)) = 1 \<and> h_seps img (threshold a) \<noteq> [] \<longrightarrow>
         (\<exists>rows char_h. grid_layout a img = Inr (1, rows, int (img_w img), char_h)))
   \<and> (length (h_seps img (threshold a)) = 1 \<and> v_seps img (threshold a) \<noteq> [] \<longrightarrow>
         (\<exists>cols char_w. grid_layout a img = Inr (cols, 1, char_w, int (img_h img))))
   \<and> (length (v_seps img (threshold a)) > 1 \<and> h_seps img (threshold a) \<noteq> [] \<longrightarrow>
         (\<exists>rows char_h. grid_layout a img
            = Inr (int (length (v_seps img (threshold a))) - 1, rows,
                   int (v_seps img (threshold a) ! 1) - int (v_seps img (threshold a) ! 0),
                   char_h)))
   \<and> (length (h_seps img (threshold a)) > 1 \<and> v_seps img (threshold a) \<noteq> [] \<longrightarrow>
         (\<exists>cols char_w. grid_layout a img
            = Inr (cols, int (length (h_seps img (threshold a))) - 1, char_w,
                   int (h_seps img (threshold a) ! 1) - int (h_seps img (threshold a) ! 0))))"
proof (intro conjI impI)
  show "detect_grid img (threshold a) = None
            \<longleftrightarrow> v_seps img (threshold a) = [] \<or> h_seps img (threshold a) = []"
    by (auto simp add: detect_grid_def Let_def)
next
  assume "v_seps img (threshold a) = [] \<or> h_seps img (threshold a) = []"
  then have "detect_grid img (threshold a) = None"
    by (auto simp add: detect_grid_def Let_def)
  with assms show "grid_layout a img = Inr (16, 6, int (img_w img) div 16, int (img_h img) div 6)"
    by (simp add: grid_layout_def Let_def)
next
  assume "v_seps img (threshold a) \<noteq> [] \<and> h_seps img (threshold a) \<noteq> []"
  then obtain detected where "detect_grid img (threshold a) = Some detected"
    by (auto simp add: detect_grid_def Let_def)
  with assms show "\<exists>detected. detect_grid img (threshold a) = Some detected
                      \<and> grid_layout a img = Inr detected"
    by (cases detected) (simp add: grid_layout_def Let_def)
next
  assume one: "length (v_seps img (threshold a)) = 1 \<and> length (h_seps img (threshold a)) = 1"
  then have "v_seps img (threshold a) \<noteq> []" "h_seps img (threshold a) \<noteq> []" by auto
  with one have "detect_grid img (threshold a) = Some (1, 1, int (img_w img), int (img_h img))"
    by (simp add: detect_grid_def Let_def)
  with assms show "grid_layout a img = Inr (1, 1, int (img_w img), int (img_h img))"
    by (simp add: grid_layout_def Let_def)
next
  assume one: "length (v_seps img (threshold a)) = 1 \<and> h_seps img (threshold a) \<noteq> []"
  then have "v_seps img (threshold a) \<noteq> []" by auto
  with one have "\<exists>rows char_h. detect_grid img (threshold a)
      = Some (1, rows, int (img_w img), char_h)"
    by (simp add: detect_grid_def Let_def)
  with assms show "\<exists>rows char_h. grid_layout a img = Inr (1, rows, int (img_w img), char_h)"
    by (auto simp add: grid_layout_def Let_def)
next
  assume one: "length (h_seps img (threshold a)) = 1 \<and> v_seps img (threshold a) \<noteq> []"
  then have "h_seps img (threshold a) \<noteq> []" by auto
  with one have "\<exists>cols char_w. detect_grid img (threshold a)
      = Some (cols, 1, char_w, int (img_h img))"
    by (simp add: detect_grid_def Let_def)
  with assms show "\<exists>cols char_w. grid_layout a img = Inr (cols, 1, char_w, int (img_h img))"
    by (auto simp add: grid_layout_def Let_def)
next
  assume more: "length (v_seps img (threshold a)) > 1 \<and> h_seps img (threshold a) \<noteq> []"
  then have "v_seps img (threshold a) \<noteq> []" by auto
  with more have "\<exists>rows char_h. detect_grid img (threshold a)
      = Some (int (length (v_seps img (threshold a))) - 1, rows,
              int (v_seps img (threshold a) ! 1) - int (v_seps img (threshold a) ! 0), char_h)"
    by (simp add: detect_grid_def Let_def)
  with assms show "\<exists>rows char_h. grid_layout a img
            = Inr (int (length (v_seps img (threshold a))) - 1, rows,
                   int (v_seps img (threshold a) ! 1) - int (v_seps img (threshold a) ! 0),
                   char_h)"
    by (auto simp add: grid_layout_def Let_def)
next
  assume more: "length (h_seps img (threshold a)) > 1 \<and> v_seps img (threshold a) \<noteq> []"
  then have "h_seps img (threshold a) \<noteq> []" by auto
  with more have "\<exists>cols char_w. detect_grid img (threshold a)
      = Some (cols, int (length (h_seps img (threshold a))) - 1, char_w,
              int (h_seps img (threshold a) ! 1) - int (h_seps img (threshold a) ! 0))"
    by (simp add: detect_grid_def Let_def)
  with assms show "\<exists>cols char_w. grid_layout a img
            = Inr (cols, int (length (h_seps img (threshold a))) - 1, char_w,
                   int (h_seps img (threshold a) ! 1) - int (h_seps img (threshold a) ! 0))"
    by (auto simp add: grid_layout_def Let_def)
qed

theorem grid_fallback_witness:
  "grid (default_args ''font.png'') = None
   \<and> char_size (default_args ''font.png'') = None
   \<and> v_seps white_image (threshold (default_args ''font.png'')) = []
   \<and> detect_grid white_image (threshold (default_args ''font.png'')) = None
   \<and> grid_layout (default_args ''font.png'') white_image = Inr (16, 6, 2, 2)
   \<and> v_seps column_two_rows_image (threshold (default_args ''font.png'')) = [0]
   \<and> h_seps column_two_rows_image (threshold (default_args ''font.png'')) = [0, 4]
   \<and> grid_layout (default_args ''font.png'') column_two_rows_image = Inr (1, 1, 32, 4)"
proof -
  let ?a = "default_args ''font.png''"
  have g: "grid ?a = None" and c: "char_size ?a = None" by (simp_all add: default_args_def)
  have v: "v_seps white_image (threshold ?a) = []" by code_simp
  from grid_fallback [OF g c, of white_image] v
  have d: "detect_grid white_image (threshold ?a) = None"
    and l: "grid_layout ?a white_image
              = Inr (16, 6, int (img_w white_image) div 16, int (img_h white_image) div 6)"
    by simp_all
  from l have l': "grid_layout ?a white_image = Inr (16, 6, 2, 2)"
    by (simp add: white_image_def)
  have v2: "v_seps column_two_rows_image (threshold ?a) = [0]" by code_simp
  have h2: "h_seps column_two_rows_image (threshold ?a) = [0, 4]" by code_simp
  from grid_fallback [OF g c, of column_two_rows_image] v2 h2
  obtain rows char_h cols char_w
    where col: "grid_layout ?a column_two_rows_image
                  = Inr (1, rows, int (img_w column_two_rows_image), char_h)"
      and row: "grid_layout ?a column_two_rows_image = Inr (cols, 1, char_w, 4)"
    by auto
  from col row have "grid_layout ?a column_two_rows_image
      = Inr (1, 1, int (img_w column_two_rows_image), 4)"
    by simp
  then have m: "grid_layout ?a column_two_rows_image = Inr (1, 1, 32, 4)"
    by (simp add: column_two_rows_image_def)
  from g c v d l' v2 h2 m show ?thesis by (intro conjI)
qed



text \<open>
  C8, as stated: in batch mode a fatal error in one image does not stop the images
  after it. The program has no exception handler, so the exception leaves the loop of
  lines 198-203. In the batch \<^verbatim>\<open>a.png b.png\<close> the first image has 108 pixels and
  \<^verbatim>\<open>compress_to_bits\<close> raises; the second image, which is processed without error
  on its own, is never reached, no output is produced, and the exit status is 1.
\<close>

theorem batch_isolation_counterexample:
  "process_image example_files ''a.png'' ((default_args ''a.png'')\<lparr>batch := [''a.png'', ''b.png'']\<rparr>)
     = Inl AssertionError
   \<and> process_image example_files ''b.png'' ((default_args ''a.png'')\<lparr>batch := [''a.png'', ''b.png'']\<rparr>)
     = Inr [255, 255, 255, 255, 255, 255, 255, 255, 255, 255, 255, 255]
   \<and> main example_files ((default_args ''a.png'')\<lparr>batch := [''a.png'', ''b.png'']\<rparr>)
     = ([], Some AssertionError)
   \<and> exit_status (snd (main example_files
          ((default_args ''a.png'')\<lparr>batch := [''a.png'', ''b.png'']\<rparr>))) = 1"
  by code_simp


text \<open>
  C8, amended: an exception raised by \<^verbatim>\<open>process_image\<close> ends the whole run with
  exit status 1. In batch mode the images before the failing one have been processed,
  each with its output, and no image after it is processed, whatever it is. In
  single-image mode nothing is produced.
\<close>

theorem fatal_error_stops_main:
  assumes "process_image files failing a = Inl e"
  shows "(batch a = before @ failing # rest
            \<and> (\<forall>p\<in>set before. \<exists>out. process_image files p a = Inr out) \<longrightarrow>
          main files a = (map (\<lambda>p. (p, projr (process_image files p a))) before, Some e))
   \<and> (batch a = [] \<and> image_path a = failing \<and> failing \<noteq> [] \<longrightarrow>
          main files a = ([], Some e))
   \<and> exit_status (Some e) = 1"
proof (intro conjI impI)
  assume b: "batch a = before @ failing # rest
            \<and> (\<forall>p\<in>set before. \<exists>out. process_image files p a = Inr out)"
  then have "batch_loop files a (before @ failing # rest) []
      = ([] @ map (\<lambda>p. (p, projr (process_image files p a))) before, Some e)"
    using assms by (intro batch_loop_stops) simp_all
  with b show "main files a = (map (\<lambda>p. (p, projr (process_image files p a))) before, Some e)"
    by (simp add: main_def)
next
  assume "batch a = [] \<and> image_path a = failing \<and> failing \<noteq> []"
  with assms show "main files a = ([], Some e)" by (simp add: main_def)
next
  from assms show "exit_status (Some e) = 1" by (rule process_image_exit_status)
qed

theorem fatal_error_stops_main_witness:
  "process_image example_files ''a.png'' ((default_args ''a.png'')\<lparr>batch := [''b.png'', ''a.png'', ''b.png'']\<rparr>)
     = Inl AssertionError
   \<and> main example_files ((default_args ''a.png'')\<lparr>batch := [''b.png'', ''a.png'', ''b.png'']\<rparr>)
     = ([(''b.png'', [255, 255, 255, 255, 255, 255, 255, 255, 255, 255, 255, 255])],
        Some AssertionError)
   \<and> main example_files (default_args ''a.png'') = ([], Some AssertionError)
   \<and> exit_status (Some AssertionError) = 1"
proof -
  let ?a = "(default_args ''a.png'')\<lparr>batch := [''b.png'', ''a.png'', ''b.png'']\<rparr>"
  have f: "process_image example_files ''a.png'' ?a = Inl AssertionError" by code_simp
  have g: "process_image example_files ''b.png'' ?a
             = Inr [255, 255, 255, 255, 255, 255, 255, 255, 255, 255, 255, 255]" by code_simp
  have b: "batch ?a = [''b.png''] @ ''a.png'' # [''b.png'']" by (simp add: default_args_def)
  from g have s: "\<forall>p\<in>set [''b.png'']. \<exists>out. process_image example_files p ?a = Inr out"
    by simp
  from fatal_error_stops_main [OF f, of "[''b.png'']" "[''b.png'']"] b s
  have m: "main example_files ?a
      = (map (\<lambda>p. (p, projr (process_image example_files p ?a))) [''b.png''], Some AssertionError)"
    and x: "exit_status (Some AssertionError) = 1"
    by blast+
  from m g have m': "main example_files ?a
     = ([(''b.png'', [255, 255, 255, 255, 255, 255, 255, 255, 255, 255, 255, 255])],
        Some AssertionError)"
    by simp
  have f1: "process_image example_files ''a.png'' (default_args ''a.png'') = Inl AssertionError"
    by code_simp
  have "batch (default_args ''a.png'') = [] \<and> image_path (default_args ''a.png'') = ''a.png''
      \<and> ''a.png'' \<noteq> []"
    by (simp add: default_args_def)
  with fatal_error_stops_main [OF f1]
  have single: "main example_files (default_args ''a.png'') = ([], Some AssertionError)"
    by blast
  from f m' single x show ?thesis by (intro conjI)
qed


end
